theory Spec2Isabelle
  imports Main
begin

section \<open>Data model of \<^verbatim>\<open>src/utils/cloc.c\<close>\<close>

text \<open>
  Conventions of the embedding.
  \<^item> A byte is a \<^typ>\<open>char\<close>. A file buffer (\<^verbatim>\<open>const unsigned char*\<close> with its
    \<^verbatim>\<open>buf_size\<close>) is the list of its \<^verbatim>\<open>buf_size\<close> bytes, so \<^verbatim>\<open>buf_size\<close>
    is the length of the list.
  \<^item> A C string is the list of its bytes before the terminating NUL; the terminator sits
    at index \<open>length s\<close>. A \<^verbatim>\<open>const char*\<close> that the code tests against the null
    pointer is a \<^typ>\<open>string option\<close>, \<open>None\<close> being the null pointer.
  \<^item> Indices into buffers are \<^typ>\<open>nat\<close>; counters and results are \<^typ>\<open>int\<close>.
    Lemma \<open>count_file_buffer_bounds\<close> shows that every counter of the classifier stays
    between 0 and \<open>buf_size + 1\<close>, and lemma \<open>scan_step_le\<close> that the index stays
    within the buffer, so no C \<^verbatim>\<open>int\<close> of the classifier overflows for a buffer
    shorter than \<open>2^31 - 8\<close> bytes (a marker has at most 7 bytes). The sums of the
    aggregator are sums of \<^typ>\<open>int\<close>; the statements about it do not depend on their
    size.
  \<^item> The global array \<^verbatim>\<open>g_languages[300]\<close> with its counter \<^verbatim>\<open>g_lang_count\<close>
    is the list of the entries in use, passed to and returned by the functions that read
    and write it.
\<close>

record dynamic_lang =
  name :: string
  extensions :: "string list"
  line_comment :: string
  block_start :: string
  block_end :: string

type_synonym registry = "dynamic_lang list"

text \<open>The five integers \<^verbatim>\<open>[lines, code, comments, blanks, size]\<close> written to
  \<^verbatim>\<open>result\<close>.\<close>

record file_result =
  r_lines :: int
  r_code :: int
  r_comments :: int
  r_blanks :: int
  r_size :: int

text \<open>\<^verbatim>\<open>lang_stats_t\<close>, together with the name kept beside it in \<^verbatim>\<open>temp_names\<close>.\<close>

record lang_stats =
  files :: int
  lines :: int
  code :: int
  comments :: int
  size_bytes :: int

section \<open>String utilities\<close>

definition str_len :: "string option \<Rightarrow> nat" where
  "str_len s = (case s of None \<Rightarrow> 0 | Some cs \<Rightarrow> length cs)"

text \<open>\<^verbatim>\<open>str_copy(dst, src, max_len)\<close>: the string left in \<^verbatim>\<open>dst\<close>. The loop copies
  while \<^verbatim>\<open>src[i]\<close> is not the terminator and \<^verbatim>\<open>i < max_len - 1\<close>.\<close>

fun str_copy_loop :: "string \<Rightarrow> int \<Rightarrow> int \<Rightarrow> string" where
  "str_copy_loop [] max_len i = []"
| "str_copy_loop (c # cs) max_len i =
     (if i < max_len - 1 then c # str_copy_loop cs max_len (i + 1) else [])"

definition str_copy :: "string option \<Rightarrow> int \<Rightarrow> string" where
  "str_copy src max_len = (case src of None \<Rightarrow> [] | Some cs \<Rightarrow> str_copy_loop cs max_len 0)"

text \<open>\<^verbatim>\<open>*a >= 'A' && *a <= 'Z' ? *a + 32 : *a\<close>\<close>

definition lower_char :: "char \<Rightarrow> char" where
  "lower_char c =
     (if (65::nat) \<le> of_char c \<and> of_char c \<le> (90::nat)
      then char_of (of_char c + (32::nat)) else c)"

fun str_equals_ci_loop :: "string \<Rightarrow> string \<Rightarrow> bool" where
  "str_equals_ci_loop (x # xs) (y # ys) =
     (if lower_char x \<noteq> lower_char y then False else str_equals_ci_loop xs ys)"
| "str_equals_ci_loop [] [] = True"
| "str_equals_ci_loop [] (y # ys) = False"
| "str_equals_ci_loop (x # xs) [] = False"

definition str_equals_ci :: "string option \<Rightarrow> string option \<Rightarrow> bool" where
  "str_equals_ci a b =
     (case a of None \<Rightarrow> False
      | Some xs \<Rightarrow> (case b of None \<Rightarrow> False | Some ys \<Rightarrow> str_equals_ci_loop xs ys))"

section \<open>Registration\<close>

text \<open>The copy of one extension: a dot is written first unless the entry begins with
  one, then the bytes \<^verbatim>\<open>ext_str[start .. pos-1]\<close> while \<^verbatim>\<open>j < 15\<close>.\<close>

function copy_ext_loop :: "string \<Rightarrow> nat \<Rightarrow> nat \<Rightarrow> nat \<Rightarrow> string" where
  "copy_ext_loop ext_str pos k j =
     (if k < pos \<and> j < 15 then (ext_str ! k) # copy_ext_loop ext_str pos (k + 1) (j + 1)
      else [])"
  by pat_completeness auto
termination
  by (relation "measure (\<lambda>(ext_str, pos, k, j). pos - k)") auto

declare copy_ext_loop.simps [simp del]

definition copy_ext :: "string \<Rightarrow> nat \<Rightarrow> nat \<Rightarrow> string" where
  "copy_ext ext_str start pos =
     (if ext_str ! start \<noteq> CHR ''.''
      then CHR ''.'' # copy_ext_loop ext_str pos start 1
      else copy_ext_loop ext_str pos start 0)"

text \<open>The \<^verbatim>\<open>while (ext_str[pos] && lang->ext_count < 20)\<close> loop. \<open>is_nul s p\<close> reads
  \<^verbatim>\<open>s[p] == '\0'\<close>. The list \<open>exts\<close> is \<^verbatim>\<open>lang->extensions\<close> up to
  \<^verbatim>\<open>lang->ext_count\<close>.\<close>

definition is_nul :: "string \<Rightarrow> nat \<Rightarrow> bool" where
  "is_nul s p = (length s \<le> p)"

function parse_extensions :: "string \<Rightarrow> nat \<Rightarrow> nat \<Rightarrow> string list \<Rightarrow> string list" where
  "parse_extensions ext_str start pos exts =
     (if \<not> is_nul ext_str pos \<and> length exts < 20 then
        (if ext_str ! pos = CHR '','' \<or> is_nul ext_str pos then
           (let len = int pos - int start;
                exts' = (if len > 0 \<and> len < 15 then exts @ [copy_ext ext_str start pos]
                         else exts)
            in parse_extensions ext_str (pos + 1) (pos + 1) exts')
         else parse_extensions ext_str start (pos + 1) exts)
      else exts)"
  by pat_completeness auto
termination
  by (relation "measure (\<lambda>(ext_str, start, pos, exts). length ext_str - pos)")
     (auto simp: is_nul_def)

declare parse_extensions.simps [simp del]

definition add_language ::
  "string option \<Rightarrow> string option \<Rightarrow> string option \<Rightarrow> string option \<Rightarrow> string option
     \<Rightarrow> registry \<Rightarrow> registry" where
  "add_language nm exts lc bs be g =
     (if length g \<ge> 300 then g
      else g @ [\<lparr> name = str_copy nm 64,
                  extensions = (case exts of None \<Rightarrow> [] | Some ext_str \<Rightarrow> parse_extensions ext_str 0 0 []),
                  line_comment = str_copy lc 8,
                  block_start = str_copy bs 8,
                  block_end = str_copy be 8 \<rparr>])"

section \<open>Language detection\<close>

text \<open>The scan for the last dot: \<open>ext\<close> is the pointer kept so far, that is the suffix
  of the path that starts at the dot.\<close>

fun find_ext :: "string \<Rightarrow> string option \<Rightarrow> string option" where
  "find_ext [] ext = ext"
| "find_ext (c # cs) ext = find_ext cs (if c = CHR ''.'' then Some (c # cs) else ext)"

fun match_extensions :: "string option \<Rightarrow> string list \<Rightarrow> bool" where
  "match_extensions ext [] = False"
| "match_extensions ext (e # es) =
     (if str_equals_ci ext (Some e) then True else match_extensions ext es)"

fun find_language :: "string option \<Rightarrow> dynamic_lang list \<Rightarrow> dynamic_lang option" where
  "find_language ext [] = None"
| "find_language ext (lang # langs) =
     (if match_extensions ext (extensions lang) then Some lang else find_language ext langs)"

definition detect_language :: "registry \<Rightarrow> string \<Rightarrow> dynamic_lang option" where
  "detect_language g filepath =
     (if length g = 0 then None
      else (case find_ext filepath None of
              None \<Rightarrow> None
            | Some ext \<Rightarrow> find_language (Some ext) g))"


definition get_language_name :: "registry \<Rightarrow> string \<Rightarrow> int \<Rightarrow> string" where
  "get_language_name g file_path max_len =
     (case detect_language g file_path of
        Some lang \<Rightarrow> str_copy (Some (name lang)) max_len
      | None \<Rightarrow> str_copy (Some ''Unknown'') max_len)"

section \<open>The line classifier\<close>

text \<open>\<^verbatim>\<open>bytes_match\<close>: the loop compares \<^verbatim>\<open>buf[pos + i]\<close> with
  \<^verbatim>\<open>pattern[i]\<close> for \<^verbatim>\<open>i < pattern_len\<close> and stops at the first difference.\<close>

function bytes_match_loop :: "char list \<Rightarrow> nat \<Rightarrow> string \<Rightarrow> nat \<Rightarrow> nat \<Rightarrow> bool" where
  "bytes_match_loop buf pos pattern pattern_len i =
     (if i < pattern_len then
        (if buf ! (pos + i) \<noteq> pattern ! i then False
         else bytes_match_loop buf pos pattern pattern_len (i + 1))
      else True)"
  by pat_completeness auto
termination
  by (relation "measure (\<lambda>(buf, pos, pattern, pattern_len, i). pattern_len - i)") auto

declare bytes_match_loop.simps [simp del]

definition bytes_match :: "char list \<Rightarrow> nat \<Rightarrow> string option \<Rightarrow> nat \<Rightarrow> nat \<Rightarrow> bool" where
  "bytes_match buf pos pattern pattern_len buf_len =
     (case pattern of
        None \<Rightarrow> False
      | Some pat \<Rightarrow>
          if pattern_len = 0 then False
          else if pos + pattern_len > buf_len then False
          else bytes_match_loop buf pos pat pattern_len 0)"

text \<open>The local variables of \<^verbatim>\<open>count_file_buffer\<close> that the loop changes, each
  under its name with the prefix \<open>s_\<close>.\<close>

record scan_state =
  s_i :: nat
  s_in_block :: bool
  s_line_start :: bool
  s_is_empty :: bool
  s_lines :: int
  s_code :: int
  s_comments :: int
  s_blanks :: int

definition newline :: char where
  "newline = CHR 0x0A"

definition tab :: char where
  "tab = CHR 0x09"

text \<open>\<^verbatim>\<open>while (i < buf_size && buffer[i] != '\n') i++;\<close>\<close>

function skip_line :: "char list \<Rightarrow> nat \<Rightarrow> nat" where
  "skip_line buffer i =
     (if i < length buffer \<and> buffer ! i \<noteq> newline then skip_line buffer (i + 1) else i)"
  by pat_completeness auto
termination
  by (relation "measure (\<lambda>(buffer, i). length buffer - i)") auto

declare skip_line.simps [simp del]

text \<open>The search for the block end on the line of the block start:
  \<^verbatim>\<open>for (int j = i; j <= buf_size - be_len; j++)\<close>. The bound is written
  \<open>j + be_len \<le> buf_size\<close>, which is the same comparison without the subtraction.
  The result is the new \<^verbatim>\<open>i\<close> when the block end was found on the line.\<close>

function find_block_end :: "char list \<Rightarrow> string option \<Rightarrow> nat \<Rightarrow> nat \<Rightarrow> nat option" where
  "find_block_end buffer be be_len j =
     (if j + be_len \<le> length buffer then
        (if buffer ! j = newline then None
         else if bytes_match buffer j be be_len (length buffer) then Some (j + be_len)
         else find_block_end buffer be be_len (j + 1))
      else None)"
  by pat_completeness auto
termination
  by (relation "measure (\<lambda>(buffer, be, be_len, j). Suc (length buffer) - j)") auto

declare find_block_end.simps [simp del]

text \<open>The last two statements of the loop body: a byte that is neither a space nor a
  tab clears \<^verbatim>\<open>is_empty\<close>, and the index advances.\<close>

definition scan_plain :: "char \<Rightarrow> scan_state \<Rightarrow> scan_state" where
  "scan_plain c s =
     s\<lparr> s_is_empty := (if c \<noteq> CHR '' '' \<and> c \<noteq> tab then False else s_is_empty s),
        s_i := s_i s + 1 \<rparr>"

text \<open>One pass through the body of \<^verbatim>\<open>while (i < buf_size)\<close>. The pointers
  \<^verbatim>\<open>line_comment\<close>, \<^verbatim>\<open>block_start\<close> and \<^verbatim>\<open>block_end\<close> of the source are
  \<open>lc\<close>, \<open>bs\<close> and \<open>be\<close> here (the long names are the fields of the record).\<close>

definition scan_step ::
  "char list \<Rightarrow> string option \<Rightarrow> string option \<Rightarrow> string option \<Rightarrow> scan_state \<Rightarrow> scan_state" where
  "scan_step buffer lc bs be s =
     (let buf_size = length buffer;
          lc_len = str_len lc; bs_len = str_len bs; be_len = str_len be;
          i = s_i s;
          c = buffer ! i
      in
      if c = newline then
        (let s1 = (if s_in_block s then s\<lparr> s_comments := s_comments s + 1 \<rparr>
                   else if s_is_empty s then s\<lparr> s_blanks := s_blanks s + 1 \<rparr>
                   else s\<lparr> s_code := s_code s + 1 \<rparr>)
         in s1\<lparr> s_lines := s_lines s1 + 1, s_line_start := True, s_is_empty := True,
                 s_i := i + 1 \<rparr>)
      else if s_line_start s \<and> (c = CHR '' '' \<or> c = tab) then s\<lparr> s_i := i + 1 \<rparr>
      else if s_line_start s then
        (let s1 = s\<lparr> s_line_start := False \<rparr> in
         if s_in_block s1 \<and> bytes_match buffer i be be_len buf_size then
           s1\<lparr> s_in_block := False, s_i := i + be_len, s_is_empty := False \<rparr>
         else if \<not> s_in_block s1 \<and> bytes_match buffer i lc lc_len buf_size then
           s1\<lparr> s_comments := s_comments s1 + 1, s_i := skip_line buffer i \<rparr>
         else if \<not> s_in_block s1 \<and> bytes_match buffer i bs bs_len buf_size then
           (let i1 = i + bs_len in
            case (if be_len > 0 then find_block_end buffer be be_len i1 else None) of
              Some i2 \<Rightarrow> s1\<lparr> s_in_block := False, s_i := i2, s_is_empty := False \<rparr>
            | None \<Rightarrow> s1\<lparr> s_in_block := True, s_i := i1, s_is_empty := False \<rparr>)
         else scan_plain c s1)
      else scan_plain c s)"

text \<open>Every pass through the loop body moves the index forward; this is what makes the
  loop end.\<close>

lemma bytes_match_bounds:
  "bytes_match buf pos pattern pattern_len buf_len \<Longrightarrow> 0 < pattern_len \<and> pos + pattern_len \<le> buf_len"
  by (auto simp: bytes_match_def split: option.splits if_splits)

lemma skip_line_ge: "i \<le> skip_line buffer i"
proof (induction buffer i rule: skip_line.induct)
  case (1 buffer i)
  show ?case
  proof (cases "i < length buffer \<and> buffer ! i \<noteq> newline")
    case True
    with "1.IH" have "i + 1 \<le> skip_line buffer (i + 1)" by simp
    with True show ?thesis by (subst skip_line.simps) simp
  next
    case False
    then show ?thesis by (subst skip_line.simps) auto
  qed
qed

lemma skip_line_gt:
  assumes "i < length buffer" and "buffer ! i \<noteq> newline"
  shows "i < skip_line buffer i"
proof -
  have "i + 1 \<le> skip_line buffer (i + 1)" by (rule skip_line_ge)
  with assms show ?thesis by (subst skip_line.simps) simp
qed

lemma find_block_end_ge:
  "find_block_end buffer be be_len j = Some i2 \<Longrightarrow> j + be_len \<le> i2"
proof (induction buffer be be_len j rule: find_block_end.induct)
  case (1 buffer be be_len j)
  from "1.prems" show ?case
    by (subst (asm) find_block_end.simps) (use "1.IH" in \<open>auto split: if_splits\<close>)
qed

lemma scan_step_advances:
  assumes "s_i s < length buffer"
  shows "s_i s < s_i (scan_step buffer lc bs be s)"
proof -
  have be: "bytes_match buffer (s_i s) be (str_len be) (length buffer) \<Longrightarrow> 0 < str_len be"
    by (drule bytes_match_bounds) simp
  have bs: "bytes_match buffer (s_i s) bs (str_len bs) (length buffer) \<Longrightarrow> 0 < str_len bs"
    by (drule bytes_match_bounds) simp
  have fe: "\<And>i2. find_block_end buffer be (str_len be) (s_i s + str_len bs) = Some i2
              \<Longrightarrow> s_i s + str_len bs \<le> i2"
    by (drule find_block_end_ge) simp
  have sk: "buffer ! s_i s \<noteq> newline \<Longrightarrow> s_i s < skip_line buffer (s_i s)"
    using assms by (rule skip_line_gt)
  show ?thesis
    unfolding scan_step_def scan_plain_def Let_def
    apply (simp split: option.splits)
    apply (intro conjI impI allI)
    using be bs fe sk apply fastforce+
    done
qed

function scan_loop ::
  "char list \<Rightarrow> string option \<Rightarrow> string option \<Rightarrow> string option \<Rightarrow> scan_state \<Rightarrow> scan_state" where
  "scan_loop buffer lc bs be s =
     (if s_i s < length buffer then scan_loop buffer lc bs be (scan_step buffer lc bs be s)
      else s)"
  by pat_completeness auto
termination
proof (relation "measure (\<lambda>(buffer, lc, bs, be, s). length buffer - s_i s)")
  show "wf (measure (\<lambda>(buffer, lc, bs, be, s). length buffer - s_i s))"
    by simp
next
  fix buffer :: "char list" and lc bs be :: "string option" and s :: scan_state
  assume "s_i s < length buffer"
  then show "((buffer, lc, bs, be, scan_step buffer lc bs be s), (buffer, lc, bs, be, s))
              \<in> measure (\<lambda>(buffer, lc, bs, be, s). length buffer - s_i s)"
    using scan_step_advances [of s buffer lc bs be] by simp
qed

declare scan_loop.simps [simp del]

text \<open>\<^verbatim>\<open>(lang && lang->line_comment[0]) ? lang->line_comment : 0\<close>, and the same for
  the two block markers: a null descriptor or an empty field gives the null pointer.\<close>

definition marker :: "dynamic_lang option \<Rightarrow> (dynamic_lang \<Rightarrow> string) \<Rightarrow> string option" where
  "marker lang field =
     (case lang of None \<Rightarrow> None
      | Some l \<Rightarrow> (if field l \<noteq> [] then Some (field l) else None))"

definition scan_init :: scan_state where
  "scan_init = \<lparr> s_i = 0, s_in_block = False, s_line_start = True, s_is_empty = True,
                   s_lines = 1, s_code = 0, s_comments = 0, s_blanks = 0 \<rparr>"

definition count_file_buffer :: "char list \<Rightarrow> dynamic_lang option \<Rightarrow> file_result" where
  "count_file_buffer buffer lang =
     (if length buffer = 0 then
        \<lparr> r_lines = 1, r_code = 0, r_comments = 0, r_blanks = 1, r_size = int (length buffer) \<rparr>
      else
        (let s = scan_loop buffer (marker lang line_comment) (marker lang block_start)
                   (marker lang block_end) scan_init
         in \<lparr> r_lines = s_lines s,
              r_code = (if \<not> s_in_block s \<and> \<not> s_is_empty s then s_code s + 1 else s_code s),
              r_comments = (if s_in_block s then s_comments s + 1 else s_comments s),
              r_blanks = (if \<not> s_in_block s \<and> s_is_empty s then s_blanks s + 1 else s_blanks s),
              r_size = int (length buffer) \<rparr>))"

section \<open>Single-file and batch analysis\<close>

definition analyze_file :: "registry \<Rightarrow> string \<Rightarrow> char list \<Rightarrow> file_result" where
  "analyze_file g file_path file_buffer =
     count_file_buffer file_buffer (detect_language g file_path)"

text \<open>\<^verbatim>\<open>analyze_batch\<close>: the arrays \<^verbatim>\<open>file_paths\<close> and \<^verbatim>\<open>file_buffers\<close> (with
  \<^verbatim>\<open>file_sizes\<close>) are two lists read in step; the outputs are the 64-byte name slots
  and the results, one per file.\<close>

fun analyze_batch :: "registry \<Rightarrow> string list \<Rightarrow> char list list \<Rightarrow> string list \<times> file_result list" where
  "analyze_batch g (file_path # paths) (buffer # buffers) =
     (let lang = detect_language g file_path;
          lang_name = (case lang of Some l \<Rightarrow> str_copy (Some (name l)) 64
                       | None \<Rightarrow> str_copy (Some ''Unknown'') 64);
          res = count_file_buffer buffer lang;
          (names, results) = analyze_batch g paths buffers
      in (lang_name # names, res # results))"
| "analyze_batch g [] buffers = ([], [])"
| "analyze_batch g paths [] = ([], [])"

section \<open>Aggregation\<close>

text \<open>\<^verbatim>\<open>temp_names\<close> and \<^verbatim>\<open>temp_stats\<close> up to \<^verbatim>\<open>lang_count\<close> are one list
  of pairs. \<open>find_lang_idx\<close> is the inner search loop, \<open>j\<close> the index of the head.\<close>

fun find_lang_idx :: "(string \<times> lang_stats) list \<Rightarrow> string \<Rightarrow> nat \<Rightarrow> nat option" where
  "find_lang_idx [] file_lang j = None"
| "find_lang_idx ((n, st) # rest) file_lang j =
     (if str_equals_ci (Some n) (Some file_lang) then Some j
      else find_lang_idx rest file_lang (j + 1))"

text \<open>The five additions of the loop body. The fields of \<^verbatim>\<open>lang_stats_t\<close> are C
  \<^verbatim>\<open>int\<close>s, and a sum that leaves their range is not the sum that the code holds; the
  additions here are those of \<^typ>\<open>int\<close>, so the model is that of the code only while
  the sums stay in the range of a C \<^verbatim>\<open>int\<close>. No statement below is about the size of a
  sum.\<close>

definition add_stats :: "file_result \<Rightarrow> lang_stats \<Rightarrow> lang_stats" where
  "add_stats r st =
     \<lparr> files = files st + 1, lines = lines st + r_lines r, code = code st + r_code r,
       comments = comments st + r_comments r, size_bytes = size_bytes st + r_size r \<rparr>"

definition zero_stats :: lang_stats where
  "zero_stats = \<lparr> files = 0, lines = 0, code = 0, comments = 0, size_bytes = 0 \<rparr>"

definition aggregate_file ::
  "string \<Rightarrow> file_result \<Rightarrow> (string \<times> lang_stats) list \<Rightarrow> (string \<times> lang_stats) list" where
  "aggregate_file file_lang file_result tmp =
     (if str_equals_ci (Some file_lang) (Some ''Unknown'') then tmp
      else
        (case find_lang_idx tmp file_lang 0 of
           Some lang_idx \<Rightarrow>
             tmp[lang_idx := (fst (tmp ! lang_idx), add_stats file_result (snd (tmp ! lang_idx)))]
         | None \<Rightarrow>
             (if length tmp < 100
              then tmp @ [(str_copy (Some file_lang) 64, add_stats file_result zero_stats)]
              else tmp)))"

fun aggregate_loop ::
  "string list \<Rightarrow> file_result list \<Rightarrow> (string \<times> lang_stats) list \<Rightarrow> (string \<times> lang_stats) list" where
  "aggregate_loop (file_lang # names) (file_result # results) tmp =
     aggregate_loop names results (aggregate_file file_lang file_result tmp)"
| "aggregate_loop [] results tmp = tmp"
| "aggregate_loop names [] tmp = tmp"

text \<open>The output: \<^verbatim>\<open>*num_langs_out\<close> is the length of the list, each name is copied
  into its 64-byte slot and each \<^verbatim>\<open>lang_stats_t\<close> into five integers.\<close>

definition aggregate_results ::
  "string list \<Rightarrow> file_result list \<Rightarrow> (string \<times> lang_stats) list" where
  "aggregate_results lang_names file_results =
     map (\<lambda>(n, st). (str_copy (Some n) 64, st)) (aggregate_loop lang_names file_results [])"


text \<open>The files that are not skipped by \<^verbatim>\<open>if (str_equals_ci(file_lang, "Unknown")) continue;\<close>\<close>

definition known_files :: "string list \<Rightarrow> file_result list \<Rightarrow> (string \<times> file_result) list" where
  "known_files lang_names file_results =
     filter (\<lambda>(n, r). \<not> str_equals_ci (Some n) (Some ''Unknown'')) (zip lang_names file_results)"


section \<open>Concrete inputs\<close>

definition slash_descriptor :: dynamic_lang where
  "slash_descriptor =
     \<lparr> name = ''C'', extensions = [''.c''], line_comment = ''//'', block_start = [],
       block_end = [] \<rparr>"

definition block_descriptor :: dynamic_lang where
  "block_descriptor =
     \<lparr> name = ''C'', extensions = [''.c''], line_comment = [], block_start = ''/*'',
       block_end = ''*/'' \<rparr>"

text \<open>The buffers \<^verbatim>\<open>"//hello\ncode();\n"\<close> and \<^verbatim>\<open>"/* a\nb */\ncode;\n"\<close>.\<close>

definition hello_buffer :: "char list" where
  "hello_buffer = ''//hello'' @ [newline] @ ''code();'' @ [newline]"

definition block_buffer :: "char list" where
  "block_buffer = ''/* a'' @ [newline] @ ''b */'' @ [newline] @ ''code;'' @ [newline]"

definition tar_registry :: registry where
  "tar_registry =
     [\<lparr> name = ''Tarball'', extensions = [''.tar.gz''], line_comment = [], block_start = [],
        block_end = [] \<rparr>,
      \<lparr> name = ''Gzip'', extensions = [''.gz''], line_comment = [], block_start = [],
        block_end = [] \<rparr>]"

section \<open>Predicates of the proofs\<close>

text \<open>\<open>no_newline\<close> says that a marker has no newline byte and \<open>newline_free\<close> that the
  bytes of the buffer from index \<open>a\<close> up to, not including, index \<open>b\<close> have none. The
  three invariants of the main loop relate the counters to the index: \<open>lines_inv\<close> counts
  the newline bytes passed, \<open>counters_inv\<close> bounds every counter by the index and
  \<open>partition_inv\<close> is the sum of the three kinds of line.\<close>

definition no_newline :: "string option \<Rightarrow> bool" where
  "no_newline m = (case m of None \<Rightarrow> True | Some pat \<Rightarrow> newline \<notin> set pat)"

definition newline_free :: "char list \<Rightarrow> nat \<Rightarrow> nat \<Rightarrow> bool" where
  "newline_free buffer a b = (\<forall>k. a \<le> k \<and> k < b \<longrightarrow> buffer ! k \<noteq> newline)"

definition lines_inv :: "char list \<Rightarrow> scan_state \<Rightarrow> bool" where
  "lines_inv buffer s \<longleftrightarrow>
     s_i s \<le> length buffer \<and> s_lines s = 1 + int (count_list (take (s_i s) buffer) newline)"

definition counters_inv :: "char list \<Rightarrow> scan_state \<Rightarrow> bool" where
  "counters_inv buffer s \<longleftrightarrow>
     s_i s \<le> length buffer \<and>
     1 \<le> s_lines s \<and> s_lines s \<le> 1 + int (s_i s) \<and>
     0 \<le> s_code s \<and> s_code s \<le> int (s_i s) \<and>
     0 \<le> s_comments s \<and> s_comments s \<le> int (s_i s) \<and>
     0 \<le> s_blanks s \<and> s_blanks s \<le> int (s_i s)"

definition partition_inv :: "scan_state \<Rightarrow> bool" where
  "partition_inv s \<longleftrightarrow> s_lines s = s_code s + s_comments s + s_blanks s + 1"

definition no_newline_markers :: "dynamic_lang option \<Rightarrow> bool" where
  "no_newline_markers lang =
     (case lang of
        None \<Rightarrow> True
      | Some l \<Rightarrow> newline \<notin> set (line_comment l) \<and> newline \<notin> set (block_start l)
                  \<and> newline \<notin> set (block_end l))"

section \<open>Facts about the string utilities, detection and matching\<close>

lemma str_copy_loop_take: "str_copy_loop cs max_len i = take (nat (max_len - 1 - i)) cs"
proof (induction cs arbitrary: i)
  case Nil
  show ?case by simp
next
  case (Cons c cs)
  show ?case
  proof (cases "i < max_len - 1")
    case True
    then have "nat (max_len - 1 - i) = Suc (nat (max_len - 1 - (i + 1)))" by simp
    with True Cons.IH [of "i + 1"] show ?thesis by simp
  next
    case False
    then show ?thesis by simp
  qed
qed

lemma str_copy_take: "str_copy (Some cs) max_len = take (nat (max_len - 1)) cs"
  by (simp add: str_copy_def str_copy_loop_take)

lemma find_ext_no_dot: "CHR ''.'' \<notin> set p \<Longrightarrow> find_ext p ext = ext"
  by (induction p arbitrary: ext) auto

lemma find_ext_last_dot:
  "CHR ''.'' \<notin> set suf \<Longrightarrow> find_ext (pre @ CHR ''.'' # suf) ext = Some (CHR ''.'' # suf)"
proof (induction pre arbitrary: ext)
  case Nil
  then show ?case by (simp add: find_ext_no_dot)
next
  case (Cons c pre)
  then show ?case by simp
qed

lemma aggregate_loop_known:
  "aggregate_loop lang_names file_results tmp =
   aggregate_loop (map fst (known_files lang_names file_results))
                  (map snd (known_files lang_names file_results)) tmp"
proof (induction lang_names file_results tmp rule: aggregate_loop.induct)
  case (1 file_lang names file_result results tmp)
  show ?case
  proof (cases "str_equals_ci (Some file_lang) (Some ''Unknown'')")
    case True
    then have "aggregate_file file_lang file_result tmp = tmp"
      by (simp add: aggregate_file_def)
    with True "1.IH" show ?thesis by (simp add: known_files_def)
  next
    case False
    with "1.IH" show ?thesis by (simp add: known_files_def)
  qed
next
  case (2 results tmp)
  show ?case by (simp add: known_files_def)
next
  case (3 names tmp)
  show ?case by (simp add: known_files_def)
qed

lemma analyze_batch_pointwise:
  "length paths = length buffers \<Longrightarrow>
   analyze_batch g paths buffers =
     (map (\<lambda>p. get_language_name g p 64) paths, map2 (analyze_file g) paths buffers)"
proof (induction g paths buffers rule: analyze_batch.induct)
  case (1 g file_path paths buffer buffers)
  then show ?case
    by (simp add: get_language_name_def analyze_file_def Let_def split: option.splits)
qed simp_all

lemma bytes_match_loop_iff:
  "bytes_match_loop buf pos pat n i \<longleftrightarrow> (\<forall>k. i \<le> k \<and> k < n \<longrightarrow> buf ! (pos + k) = pat ! k)"
proof (induction buf pos pat n i rule: bytes_match_loop.induct)
  case (1 buf pos pat n i)
  show ?case
  proof (cases "i < n")
    case False
    then show ?thesis by (subst bytes_match_loop.simps) auto
  next
    case True
    show ?thesis
    proof (cases "buf ! (pos + i) = pat ! i")
      case False
      with True show ?thesis by (subst bytes_match_loop.simps) auto
    next
      case eq: True
      have "(\<forall>k. i \<le> k \<and> k < n \<longrightarrow> buf ! (pos + k) = pat ! k) \<longleftrightarrow>
            (\<forall>k. i + 1 \<le> k \<and> k < n \<longrightarrow> buf ! (pos + k) = pat ! k)"
        using eq by (metis Suc_eq_plus1 Suc_leI le_neq_implies_less le_simps(3) less_or_eq_imp_le)
      with True eq "1.IH" show ?thesis by (subst bytes_match_loop.simps) simp
    qed
  qed
qed

lemma bytes_match_iff:
  "bytes_match buf pos (Some pat) (length pat) (length buf) \<longleftrightarrow>
     pat \<noteq> [] \<and> pos + length pat \<le> length buf \<and> take (length pat) (drop pos buf) = pat"
proof (cases "pat \<noteq> [] \<and> pos + length pat \<le> length buf")
  case False
  then show ?thesis by (auto simp: bytes_match_def)
next
  case True
  have "take (length pat) (drop pos buf) = pat \<longleftrightarrow>
             (\<forall>k<length pat. buf ! (pos + k) = pat ! k)"
    using True by (subst list_eq_iff_nth_eq) auto
  moreover have "bytes_match buf pos (Some pat) (length pat) (length buf) \<longleftrightarrow>
     bytes_match_loop buf pos pat (length pat) 0"
    using True by (simp add: bytes_match_def)
  moreover have "bytes_match_loop buf pos pat (length pat) 0 \<longleftrightarrow>
     (\<forall>k<length pat. buf ! (pos + k) = pat ! k)"
    by (simp add: bytes_match_loop_iff)
  ultimately show ?thesis using True by blast
qed

section \<open>Facts about registration\<close>

text \<open>Nothing is stored after the last comma of the list: the loop ends at the terminator
  without storing the entry that it was reading.\<close>

lemma parse_extensions_no_comma_from:
  "(\<forall>k. pos \<le> k \<and> k < length ext_str \<longrightarrow> ext_str ! k \<noteq> CHR '','') \<Longrightarrow>
     parse_extensions ext_str start pos exts = exts"
proof (induction ext_str start pos exts rule: parse_extensions.induct)
  case (1 ext_str start pos exts)
  show ?case
  proof (cases "\<not> is_nul ext_str pos \<and> length exts < 20")
    case False
    then show ?thesis by (subst parse_extensions.simps) auto
  next
    case True
    then have pos: "pos < length ext_str" by (simp add: is_nul_def)
    with "1.prems" have nc: "ext_str ! pos \<noteq> CHR '',''" by simp
    from "1.prems" have rest: "\<forall>k. pos + 1 \<le> k \<and> k < length ext_str \<longrightarrow> ext_str ! k \<noteq> CHR '',''"
      by simp
    from True nc have "parse_extensions ext_str start pos exts =
                       parse_extensions ext_str start (pos + 1) exts"
      by (subst parse_extensions.simps) simp
    also from "1.IH"(2) True nc rest have "\<dots> = exts" by simp
    finally show ?thesis .
  qed
qed

lemma parse_extensions_no_comma:
  "CHR '','' \<notin> set ext_str \<Longrightarrow> parse_extensions ext_str 0 0 [] = []"
  by (rule parse_extensions_no_comma_from) (metis nth_mem)

lemma copy_ext_loop_take:
  "pos \<le> length ext_str \<Longrightarrow>
     copy_ext_loop ext_str pos k j = take (min (pos - k) (15 - j)) (drop k ext_str)"
proof (induction ext_str pos k j rule: copy_ext_loop.induct)
  case (1 ext_str pos k j)
  show ?case
  proof (cases "k < pos \<and> j < 15")
    case False
    then show ?thesis by (subst copy_ext_loop.simps) auto
  next
    case True
    with "1.prems" have k: "k < length ext_str" by simp
    from True have m: "min (pos - k) (15 - j) = Suc (min (pos - (k + 1)) (15 - (j + 1)))"
      by auto
    from True "1.IH" "1.prems"
    have "copy_ext_loop ext_str pos k j =
          ext_str ! k # take (min (pos - (k + 1)) (15 - (j + 1))) (drop (k + 1) ext_str)"
      by (subst copy_ext_loop.simps) simp
    also have "\<dots> = take (min (pos - k) (15 - j)) (drop k ext_str)"
      unfolding m by (subst Cons_nth_drop_Suc [symmetric, OF k]) simp
    finally show ?thesis .
  qed
qed

text \<open>An entry that is followed by its comma is stored, with the dot in front when it
  does not begin with one.\<close>

lemma parse_extensions_entry:
  assumes "CHR '','' \<notin> set e" and "0 < length e" and "length e < 15"
  shows "parse_extensions (e @ '','') 0 0 [] = [if hd e = CHR ''.'' then e else CHR ''.'' # e]"
proof -
  have walk: "parse_extensions (e @ '','') 0 pos [] = parse_extensions (e @ '','') 0 (length e) []"
    if "pos \<le> length e" for pos
    using that
  proof (induction "length e - pos" arbitrary: pos)
    case 0
    then show ?case by simp
  next
    case (Suc d)
    then have pos: "pos < length e" by simp
    with assms(1) have "(e @ '','') ! pos \<noteq> CHR '',''"
      by (metis nth_append nth_mem)
    with pos have "parse_extensions (e @ '','') 0 pos [] = parse_extensions (e @ '','') 0 (pos + 1) []"
      by (subst parse_extensions.simps) (simp add: is_nul_def)
    also have "\<dots> = parse_extensions (e @ '','') 0 (length e) []"
      using Suc pos by (intro Suc.hyps(1)) simp_all
    finally show ?case .
  qed
  have stop: "parse_extensions (e @ '','') (Suc (length e)) (Suc (length e)) exts = exts" for exts
    by (subst parse_extensions.simps) (simp add: is_nul_def)
  have copy: "copy_ext (e @ '','') 0 (length e) = (if hd e = CHR ''.'' then e else CHR ''.'' # e)"
    using assms(2,3) by (cases e) (simp_all add: copy_ext_def copy_ext_loop_take)
  have "parse_extensions (e @ '','') 0 (length e) [] = [copy_ext (e @ '','') 0 (length e)]"
    using assms(2,3) by (subst parse_extensions.simps) (simp add: is_nul_def stop)
  with walk [of 0] copy show ?thesis by simp
qed

text \<open>The names of a registry filled by \<^verbatim>\<open>add_language\<close> fit their 64-byte field, so a
  caller's buffer of 64 bytes or more receives the name that the batch writes.\<close>

lemma find_language_in: "find_language ext g = Some l \<Longrightarrow> l \<in> set g"
  by (induction g) (auto split: if_splits)

lemma add_language_names:
  assumes "\<forall>l \<in> set g. length (name l) \<le> 63"
  shows "\<forall>l \<in> set (add_language nm exts lc bs be g). length (name l) \<le> 63"
  using assms by (cases nm) (auto simp: add_language_def str_copy_def str_copy_loop_take)

lemma get_language_name_capacity:
  assumes "\<forall>l \<in> set g. length (name l) \<le> 63" and "64 \<le> max_len"
  shows "get_language_name g p max_len = get_language_name g p 64"
proof (cases "detect_language g p")
  case None
  with assms(2) show ?thesis by (simp add: get_language_name_def str_copy_take)
next
  case (Some l)
  then have "l \<in> set g"
    by (auto simp: detect_language_def dest: find_language_in split: if_splits option.splits)
  with assms(1) have "length (name l) \<le> 63" by simp
  with Some assms(2) show ?thesis by (simp add: get_language_name_def str_copy_take)
qed

section \<open>Facts about the classifier\<close>

lemma newline_free_trans:
  "newline_free buffer a b \<Longrightarrow> newline_free buffer b c \<Longrightarrow> newline_free buffer a c"
  unfolding newline_free_def by (meson not_le_imp_less)

lemma newline_free_step:
  "buffer ! a \<noteq> newline \<Longrightarrow> newline_free buffer (a + 1) b \<Longrightarrow> newline_free buffer a b"
  unfolding newline_free_def by (metis Suc_eq_plus1 Suc_leI le_neq_implies_less)

lemma newline_free_refl: "newline_free buffer a a"
  by (auto simp: newline_free_def)

lemma count_newline_free:
  assumes "newline_free buffer a b" and "a \<le> b" and "b \<le> length buffer"
  shows "count_list (take b buffer) newline = count_list (take a buffer) newline"
  using assms
proof (induction b)
  case 0
  then show ?case by simp
next
  case (Suc b)
  show ?case
  proof (cases "a = Suc b")
    case True
    then show ?thesis by simp
  next
    case False
    with Suc.prems have ab: "a \<le> b" and b: "b < length buffer" by simp_all
    from Suc.prems(1) ab have nb: "buffer ! b \<noteq> newline"
      by (simp add: newline_free_def)
    from Suc.prems(1) have "newline_free buffer a b"
      by (simp add: newline_free_def)
    with Suc.IH ab b have "count_list (take b buffer) newline = count_list (take a buffer) newline"
      by simp
    with nb b show ?thesis
      by (simp add: take_Suc_conv_app_nth)
  qed
qed

lemma count_newline_at:
  assumes "i < length buffer" and "buffer ! i = newline"
  shows "count_list (take (i + 1) buffer) newline = count_list (take i buffer) newline + 1"
  using assms by (simp add: take_Suc_conv_app_nth)

lemma bytes_match_newline_free:
  assumes "bytes_match buffer i m (str_len m) (length buffer)" and "no_newline m"
  shows "i + str_len m \<le> length buffer \<and> newline_free buffer i (i + str_len m)"
proof (cases m)
  case None
  with assms show ?thesis by (simp add: bytes_match_def)
next
  case (Some pat)
  with assms have m: "bytes_match buffer i (Some pat) (length pat) (length buffer)"
    by (simp add: str_len_def)
  then have len: "i + length pat \<le> length buffer"
    and eq: "take (length pat) (drop i buffer) = pat"
    by (simp_all add: bytes_match_iff)
  have "buffer ! k \<noteq> newline" if "i \<le> k" and "k < i + length pat" for k
  proof -
    from that have "k - i < length pat" by simp
    then have "pat ! (k - i) \<in> set pat" by simp
    moreover have "pat ! (k - i) = buffer ! k"
    proof -
      have "take (length pat) (drop i buffer) ! (k - i) = buffer ! k"
        using that len by simp
      with eq show ?thesis by simp
    qed
    ultimately show ?thesis using assms(2) Some by (auto simp: no_newline_def)
  qed
  with len Some show ?thesis by (simp add: newline_free_def str_len_def)
qed

lemma skip_line_newline_free:
  "i \<le> length buffer \<Longrightarrow>
     skip_line buffer i \<le> length buffer \<and> newline_free buffer i (skip_line buffer i)"
proof (induction buffer i rule: skip_line.induct)
  case (1 buffer i)
  show ?case
  proof (cases "i < length buffer \<and> buffer ! i \<noteq> newline")
    case True
    with "1.IH" have IH: "skip_line buffer (i + 1) \<le> length buffer"
      "newline_free buffer (i + 1) (skip_line buffer (i + 1))"
      by simp_all
    from True have eq: "skip_line buffer i = skip_line buffer (i + 1)"
      by (subst skip_line.simps) simp
    from True IH(2) have "newline_free buffer i (skip_line buffer (i + 1))"
      by (simp add: newline_free_step)
    with IH(1) eq show ?thesis by simp
  next
    case False
    then have "skip_line buffer i = i" by (subst skip_line.simps) auto
    with "1.prems" show ?thesis by (simp add: newline_free_refl)
  qed
qed

lemma find_block_end_newline_free:
  assumes "find_block_end buffer be (str_len be) j = Some i2" and "no_newline be"
  shows "i2 \<le> length buffer \<and> newline_free buffer j i2"
  using assms
proof (induction buffer be "str_len be" j rule: find_block_end.induct)
  case (1 buffer be j)
  from "1.prems"(1) have bound: "j + str_len be \<le> length buffer"
    and nl: "buffer ! j \<noteq> newline"
    by (subst (asm) find_block_end.simps, simp split: if_splits)+
  show ?case
  proof (cases "bytes_match buffer j be (str_len be) (length buffer)")
    case True
    with "1.prems"(1) bound nl have "i2 = j + str_len be"
      by (subst (asm) find_block_end.simps) simp
    with True "1.prems"(2) show ?thesis
      using bytes_match_newline_free [of buffer j be] by simp
  next
    case False
    with "1.prems"(1) bound nl have "find_block_end buffer be (str_len be) (j + 1) = Some i2"
      by (subst (asm) find_block_end.simps) simp
    with "1.hyps" bound nl False "1.prems"(2)
    have "i2 \<le> length buffer \<and> newline_free buffer (j + 1) i2"
      by simp
    with nl show ?thesis by (simp add: newline_free_step)
  qed
qed

lemma scan_loop_invariant:
  "P s \<Longrightarrow>
   (\<And>t. P t \<Longrightarrow> s_i t < length buffer \<Longrightarrow> P (scan_step buffer lc bs be t)) \<Longrightarrow>
   P (scan_loop buffer lc bs be s) \<and> length buffer \<le> s_i (scan_loop buffer lc bs be s)"
proof (induction buffer lc bs be s rule: scan_loop.induct)
  case (1 buffer lc bs be s)
  show ?case
  proof (cases "s_i s < length buffer")
    case True
    then have eq: "scan_loop buffer lc bs be s = scan_loop buffer lc bs be (scan_step buffer lc bs be s)"
      by (subst scan_loop.simps) simp
    from True "1.prems"(1) have "P (scan_step buffer lc bs be s)"
      by (rule "1.prems"(2)[rotated])
    with "1.IH" [OF True] "1.prems"(2) show ?thesis unfolding eq by blast
  next
    case False
    then have "scan_loop buffer lc bs be s = s"
      by (subst scan_loop.simps) simp
    with False "1.prems"(1) show ?thesis by simp
  qed
qed

lemma scan_step_newline:
  assumes "buffer ! s_i s = newline"
  shows "s_i (scan_step buffer lc bs be s) = s_i s + 1"
    and "s_lines (scan_step buffer lc bs be s) = s_lines s + 1"
  using assms by (simp_all add: scan_step_def Let_def)

lemma scan_step_no_newline:
  assumes "s_i s < length buffer" and "buffer ! s_i s \<noteq> newline"
    and "no_newline bs" and "no_newline be"
  shows "s_lines (scan_step buffer lc bs be s) = s_lines s"
    and "s_i (scan_step buffer lc bs be s) \<le> length buffer"
    and "newline_free buffer (s_i s) (s_i (scan_step buffer lc bs be s))"
proof -
  have one: "newline_free buffer (s_i s) (Suc (s_i s))"
    using assms(2) by (auto simp: newline_free_def le_less_Suc_eq)
  have be: "s_i s + str_len be \<le> length buffer \<and> newline_free buffer (s_i s) (s_i s + str_len be)"
    if "bytes_match buffer (s_i s) be (str_len be) (length buffer)"
    using that assms(4) by (rule bytes_match_newline_free)
  have bs: "s_i s + str_len bs \<le> length buffer \<and> newline_free buffer (s_i s) (s_i s + str_len bs)"
    if "bytes_match buffer (s_i s) bs (str_len bs) (length buffer)"
    using that assms(3) by (rule bytes_match_newline_free)
  have sk: "skip_line buffer (s_i s) \<le> length buffer \<and>
            newline_free buffer (s_i s) (skip_line buffer (s_i s))"
    using assms(1) by (intro skip_line_newline_free) simp
  have fe: "i2 \<le> length buffer \<and> newline_free buffer (s_i s) i2"
    if "bytes_match buffer (s_i s) bs (str_len bs) (length buffer)"
      and "find_block_end buffer be (str_len be) (s_i s + str_len bs) = Some i2" for i2
    using bs [OF that(1)] find_block_end_newline_free [OF that(2) assms(4)]
    by (auto intro: newline_free_trans)
  show "s_lines (scan_step buffer lc bs be s) = s_lines s"
    using assms(2) by (simp add: scan_step_def scan_plain_def Let_def split: option.splits)
  show "s_i (scan_step buffer lc bs be s) \<le> length buffer"
    using assms(1,2) be bs sk fe
    by (simp add: scan_step_def scan_plain_def Let_def split: option.splits)
  show "newline_free buffer (s_i s) (s_i (scan_step buffer lc bs be s))"
    using assms(2) one be bs sk fe
    by (simp add: scan_step_def scan_plain_def Let_def split: option.splits)
qed

lemma lines_inv_step:
  assumes "lines_inv buffer s" and "s_i s < length buffer" and "no_newline bs" and "no_newline be"
  shows "lines_inv buffer (scan_step buffer lc bs be s)"
proof (cases "buffer ! s_i s = newline")
  case True
  with assms(1,2) show ?thesis
    using count_newline_at [of "s_i s" buffer]
    by (simp add: lines_inv_def scan_step_newline)
next
  case False
  note st = scan_step_no_newline [OF assms(2) False assms(3,4), of lc]
  have "s_i s \<le> s_i (scan_step buffer lc bs be s)"
    using scan_step_advances [OF assms(2), of lc bs be] by simp
  with st have "count_list (take (s_i (scan_step buffer lc bs be s)) buffer) newline =
                count_list (take (s_i s) buffer) newline"
    by (intro count_newline_free) simp_all
  with assms(1) st show ?thesis by (simp add: lines_inv_def)
qed

lemma scan_loop_lines:
  assumes "no_newline bs" and "no_newline be"
  shows "s_lines (scan_loop buffer lc bs be scan_init) = 1 + int (count_list buffer newline)"
proof -
  have "lines_inv buffer scan_init"
    by (simp add: lines_inv_def scan_init_def)
  then have "lines_inv buffer (scan_loop buffer lc bs be scan_init) \<and>
             length buffer \<le> s_i (scan_loop buffer lc bs be scan_init)"
    by (rule scan_loop_invariant) (rule lines_inv_step [OF _ _ assms])
  then show ?thesis by (simp add: lines_inv_def)
qed

lemma find_block_end_le:
  "find_block_end buffer be be_len j = Some i2 \<Longrightarrow> i2 \<le> length buffer"
proof (induction buffer be be_len j rule: find_block_end.induct)
  case (1 buffer be be_len j)
  from "1.prems" show ?case
    by (subst (asm) find_block_end.simps) (use "1.IH" in \<open>auto split: if_splits\<close>)
qed

lemma scan_step_le:
  assumes "s_i s < length buffer"
  shows "s_i (scan_step buffer lc bs be s) \<le> length buffer"
proof -
  have be: "bytes_match buffer (s_i s) be (str_len be) (length buffer) \<Longrightarrow>
              s_i s + str_len be \<le> length buffer"
    by (drule bytes_match_bounds) simp
  have bs: "bytes_match buffer (s_i s) bs (str_len bs) (length buffer) \<Longrightarrow>
              s_i s + str_len bs \<le> length buffer"
    by (drule bytes_match_bounds) simp
  have sk: "skip_line buffer (s_i s) \<le> length buffer"
    using assms skip_line_newline_free [of "s_i s" buffer] by simp
  show ?thesis
    using assms be bs sk find_block_end_le [of buffer be "str_len be" "s_i s + str_len bs"]
    by (simp add: scan_step_def scan_plain_def Let_def split: option.splits)
qed

text \<open>Each pass adds at most one to each counter.\<close>

lemma scan_step_counters:
  "s_lines s \<le> s_lines (scan_step buffer lc bs be s) \<and>
   s_lines (scan_step buffer lc bs be s) \<le> s_lines s + 1 \<and>
   s_code s \<le> s_code (scan_step buffer lc bs be s) \<and>
   s_code (scan_step buffer lc bs be s) \<le> s_code s + 1 \<and>
   s_comments s \<le> s_comments (scan_step buffer lc bs be s) \<and>
   s_comments (scan_step buffer lc bs be s) \<le> s_comments s + 1 \<and>
   s_blanks s \<le> s_blanks (scan_step buffer lc bs be s) \<and>
   s_blanks (scan_step buffer lc bs be s) \<le> s_blanks s + 1"
  by (simp add: scan_step_def scan_plain_def Let_def split: option.splits)

lemma counters_inv_step:
  assumes "counters_inv buffer s" and "s_i s < length buffer"
  shows "counters_inv buffer (scan_step buffer lc bs be s)"
  using assms(1) scan_step_le [OF assms(2), of lc bs be]
    scan_step_advances [OF assms(2), of lc bs be] scan_step_counters [of s buffer lc bs be]
  unfolding counters_inv_def by linarith

lemma count_file_buffer_bounds:
  "0 \<le> r_lines (count_file_buffer buffer lang) \<and>
   r_lines (count_file_buffer buffer lang) \<le> int (length buffer) + 1 \<and>
   0 \<le> r_code (count_file_buffer buffer lang) \<and>
   r_code (count_file_buffer buffer lang) \<le> int (length buffer) + 1 \<and>
   0 \<le> r_comments (count_file_buffer buffer lang) \<and>
   r_comments (count_file_buffer buffer lang) \<le> int (length buffer) + 1 \<and>
   0 \<le> r_blanks (count_file_buffer buffer lang) \<and>
   r_blanks (count_file_buffer buffer lang) \<le> int (length buffer) + 1 \<and>
   r_size (count_file_buffer buffer lang) = int (length buffer)"
proof (cases "length buffer = 0")
  case True
  then show ?thesis by (simp add: count_file_buffer_def)
next
  case False
  define s where "s = scan_loop buffer (marker lang line_comment) (marker lang block_start)
                   (marker lang block_end) scan_init"
  have "counters_inv buffer scan_init"
    by (simp add: counters_inv_def scan_init_def)
  then have "counters_inv buffer s \<and> length buffer \<le> s_i s"
    unfolding s_def by (rule scan_loop_invariant) (rule counters_inv_step)
  then have "s_i s = length buffer" and "counters_inv buffer s"
    by (simp_all add: counters_inv_def)
  then have "1 \<le> s_lines s \<and> s_lines s \<le> 1 + int (length buffer) \<and>
     0 \<le> s_code s \<and> s_code s \<le> int (length buffer) \<and>
     0 \<le> s_comments s \<and> s_comments s \<le> int (length buffer) \<and>
     0 \<le> s_blanks s \<and> s_blanks s \<le> int (length buffer)"
    by (simp add: counters_inv_def)
  with False show ?thesis
    by (simp add: count_file_buffer_def Let_def s_def [symmetric])
qed

text \<open>Without a line-comment marker every line is counted once.\<close>

lemma partition_inv_step:
  assumes "partition_inv s"
  shows "partition_inv (scan_step buffer None bs be s)"
  using assms
  by (simp add: partition_inv_def scan_step_def scan_plain_def Let_def bytes_match_def
      split: option.splits)

lemma count_file_buffer_partition:
  assumes "marker lang line_comment = None"
  shows "r_lines (count_file_buffer buffer lang) =
         r_code (count_file_buffer buffer lang) + r_comments (count_file_buffer buffer lang)
         + r_blanks (count_file_buffer buffer lang)"
proof (cases "length buffer = 0")
  case True
  then show ?thesis by (simp add: count_file_buffer_def)
next
  case False
  have "partition_inv scan_init"
    by (simp add: partition_inv_def scan_init_def)
  then have "partition_inv (scan_loop buffer None (marker lang block_start)
                   (marker lang block_end) scan_init) \<and>
       length buffer \<le> s_i (scan_loop buffer None (marker lang block_start)
                   (marker lang block_end) scan_init)"
    by (rule scan_loop_invariant) (rule partition_inv_step)
  with False assms show ?thesis
    by (simp add: count_file_buffer_def Let_def partition_inv_def)
qed

lemma no_newline_marker:
  "no_newline_markers lang \<Longrightarrow>
     no_newline (marker lang line_comment) \<and> no_newline (marker lang block_start)
     \<and> no_newline (marker lang block_end)"
  by (cases lang) (auto simp: no_newline_markers_def no_newline_def marker_def)

lemma count_file_buffer_lines:
  assumes "no_newline_markers lang"
  shows "r_lines (count_file_buffer buffer lang) = int (count_list buffer newline) + 1"
proof (cases "length buffer = 0")
  case True
  then show ?thesis by (simp add: count_file_buffer_def)
next
  case False
  from assms have "no_newline (marker lang block_start)" and "no_newline (marker lang block_end)"
    by (simp_all add: no_newline_marker)
  then have "s_lines (scan_loop buffer (marker lang line_comment) (marker lang block_start)
                   (marker lang block_end) scan_init) = 1 + int (count_list buffer newline)"
    by (rule scan_loop_lines)
  with False show ?thesis by (simp add: count_file_buffer_def Let_def)
qed

text \<open>A block end that stands in the middle of a line closes the block only on the line
  that opens it (the search of \<open>find_block_end\<close>). On a later line the block end is
  tested at the first byte that is not a space or a tab and nowhere else, so a block whose
  end follows other text stays open to the end of the buffer and every later line is
  counted as comment.\<close>

lemma block_end_missed_in_mid_line:
  "count_file_buffer block_buffer (Some block_descriptor) =
     \<lparr> r_lines = 4, r_code = 0, r_comments = 4, r_blanks = 0, r_size = 16 \<rparr>
   \<and> count_file_buffer (''/* a b */'' @ [newline] @ ''code;'') (Some block_descriptor) =
     \<lparr> r_lines = 2, r_code = 2, r_comments = 0, r_blanks = 0, r_size = 15 \<rparr>"
  by code_simp

section \<open>The claims\<close>

text \<open>C1: the claim is that lines = code + comments + blanks for every buffer and
  descriptor. The code breaks it on a line comment: the branch that recognises the marker
  adds one to \<^verbatim>\<open>comments\<close> and leaves \<^verbatim>\<open>is_empty\<close> set, so the end of the same line
  adds one to \<^verbatim>\<open>blanks\<close> as well. For the one-line buffer \<^verbatim>\<open>"//x"\<close> the code reports
  one line, one comment and one blank.\<close>

theorem C1_line_comment_counted_twice:
  "count_file_buffer ''//x'' (Some slash_descriptor) =
     \<lparr> r_lines = 1, r_code = 0, r_comments = 1, r_blanks = 1, r_size = 3 \<rparr>
   \<and> r_lines (count_file_buffer ''//x'' (Some slash_descriptor)) \<noteq>
       r_code (count_file_buffer ''//x'' (Some slash_descriptor))
     + r_comments (count_file_buffer ''//x'' (Some slash_descriptor))
     + r_blanks (count_file_buffer ''//x'' (Some slash_descriptor))"
  by code_simp

text \<open>C2, as amended: with a descriptor whose line comment is \<^verbatim>\<open>//\<close> and which has no
  block markers, the 16-byte buffer \<^verbatim>\<open>"//hello\ncode();\n"\<close> is reported with
  lines = 3, code = 1 and comments = 1: the empty segment after the final newline is a
  third line.\<close>

theorem C2_line_comment_example:
  "r_lines (count_file_buffer hello_buffer
      (Some \<lparr> name = n, extensions = es, line_comment = ''//'', block_start = [],
              block_end = [] \<rparr>)) = 3
   \<and> r_code (count_file_buffer hello_buffer
      (Some \<lparr> name = n, extensions = es, line_comment = ''//'', block_start = [],
              block_end = [] \<rparr>)) = 1
   \<and> r_comments (count_file_buffer hello_buffer
      (Some \<lparr> name = n, extensions = es, line_comment = ''//'', block_start = [],
              block_end = [] \<rparr>)) = 1
   \<and> r_size (count_file_buffer hello_buffer
      (Some \<lparr> name = n, extensions = es, line_comment = ''//'', block_start = [],
              block_end = [] \<rparr>)) = 16"
  by code_simp

theorem C2_counterexample:
  "\<not> (r_lines (count_file_buffer hello_buffer (Some slash_descriptor)) = 2
      \<and> r_code (count_file_buffer hello_buffer (Some slash_descriptor)) = 1
      \<and> r_comments (count_file_buffer hello_buffer (Some slash_descriptor)) = 1
      \<and> r_blanks (count_file_buffer hello_buffer (Some slash_descriptor)) = 0)"
  by code_simp

text \<open>C3, as amended: with block markers \<^verbatim>\<open>/*\<close> and \<^verbatim>\<open>*/\<close> the buffer
  \<^verbatim>\<open>"/* a\nb */\ncode;\n"\<close> is reported with lines = 4 and size = 16, the empty
  segment after the final newline being a fourth line, and its first line is counted as a
  comment line: after the four passes of the loop body that read \<^verbatim>\<open>/* a\n\<close> the
  index is at the start of line 2, the block is open, and the counters are lines = 2,
  comments = 1, code = 0, blanks = 0. Nothing is said of the counts of code, comments and
  blanks for the whole buffer.\<close>

theorem C3_block_comment_example:
  "r_lines (count_file_buffer block_buffer
      (Some \<lparr> name = n, extensions = es, line_comment = [], block_start = ''/*'',
              block_end = ''*/'' \<rparr>)) = 4
   \<and> r_size (count_file_buffer block_buffer
      (Some \<lparr> name = n, extensions = es, line_comment = [], block_start = ''/*'',
              block_end = ''*/'' \<rparr>)) = 16
   \<and> (scan_step block_buffer None (Some ''/*'') (Some ''*/'') ^^ 4) scan_init =
       \<lparr> s_i = 5, s_in_block = True, s_line_start = True, s_is_empty = True,
         s_lines = 2, s_code = 0, s_comments = 1, s_blanks = 0 \<rparr>"
  by code_simp

theorem C3_counterexample:
  "\<not> (r_lines (count_file_buffer block_buffer (Some block_descriptor)) = 3
      \<and> r_code (count_file_buffer block_buffer (Some block_descriptor)) = 1
      \<and> r_comments (count_file_buffer block_buffer (Some block_descriptor)) = 2
      \<and> r_blanks (count_file_buffer block_buffer (Some block_descriptor)) = 0)"
  by code_simp

text \<open>C4: classifying an empty buffer, with any descriptor or with none, gives
  lines = 1, code = 0, comments = 0, blanks = 1 and size = 0.\<close>

theorem C4_empty_buffer:
  "count_file_buffer [] lang =
     \<lparr> r_lines = 1, r_code = 0, r_comments = 0, r_blanks = 1, r_size = 0 \<rparr>"
  by (simp add: count_file_buffer_def)

text \<open>C5: detection compares the registry with the suffix of the path that starts at its
  last dot, so \<^verbatim>\<open>archive.tar.gz\<close> is looked up as \<^verbatim>\<open>.gz\<close> and a language that
  only has \<^verbatim>\<open>.tar.gz\<close> is not found for it; a path without a dot has no descriptor
  and its language name is \<^verbatim>\<open>Unknown\<close> (cut to the capacity \<^verbatim>\<open>max_len\<close> of the
  caller's buffer, so whole from 8 bytes on).\<close>

theorem C5_detect_uses_last_dot:
  "(CHR ''.'' \<notin> set suf \<longrightarrow>
      detect_language g (pre @ CHR ''.'' # suf) =
        (if length g = 0 then None else find_language (Some (CHR ''.'' # suf)) g))
   \<and> detect_language g ''archive.tar.gz'' =
        (if length g = 0 then None else find_language (Some ''.gz'') g)
   \<and> detect_language
        [\<lparr> name = n, extensions = [''.tar.gz''], line_comment = lc, block_start = bs,
           block_end = be \<rparr>] ''archive.tar.gz'' = None
   \<and> (CHR ''.'' \<notin> set p \<longrightarrow>
        detect_language g p = None
        \<and> (8 \<le> max_len \<longrightarrow> get_language_name g p max_len = ''Unknown''))"
proof (intro conjI impI)
  assume "CHR ''.'' \<notin> set suf"
  then show "detect_language g (pre @ CHR ''.'' # suf) =
        (if length g = 0 then None else find_language (Some (CHR ''.'' # suf)) g)"
    by (simp add: detect_language_def find_ext_last_dot)
next
  have "find_ext (''archive.tar'' @ CHR ''.'' # ''gz'') None = Some (CHR ''.'' # ''gz'')"
    by (rule find_ext_last_dot) simp
  then show "detect_language g ''archive.tar.gz'' =
        (if length g = 0 then None else find_language (Some ''.gz'') g)"
    by (simp add: detect_language_def)
next
  show "detect_language
        [\<lparr> name = n, extensions = [''.tar.gz''], line_comment = lc, block_start = bs,
           block_end = be \<rparr>] ''archive.tar.gz'' = None"
    by code_simp
next
  assume nodot: "CHR ''.'' \<notin> set p"
  then show none: "detect_language g p = None"
    by (simp add: detect_language_def find_ext_no_dot)
  then have unk: "get_language_name g p max_len = str_copy (Some ''Unknown'') max_len"
    by (simp add: get_language_name_def)
  assume "8 \<le> max_len"
  then have "nat (max_len - 1) \<ge> 7" by simp
  then show "get_language_name g p max_len = ''Unknown''"
    by (simp add: unk str_copy_take)
qed

theorem C5_witness:
  "detect_language tar_registry ''archive.tar.gz'' = Some (tar_registry ! 1)
   \<and> detect_language tar_registry ''Makefile'' = None
   \<and> get_language_name tar_registry ''Makefile'' 64 = ''Unknown''"
proof -
  have nodot: "CHR ''.'' \<notin> set ''gz''" "CHR ''.'' \<notin> set ''Makefile''"
    by simp_all
  have cap: "(8::int) \<le> 64"
    by simp
  have nonempty: "length tar_registry \<noteq> 0"
    by (simp add: tar_registry_def)
  from C5_detect_uses_last_dot
         [of "''gz''" tar_registry "''archive.tar''" "[]" "[]" "[]" "[]" "''Makefile''" 64]
       nodot cap nonempty
  have "detect_language tar_registry ''archive.tar.gz'' = find_language (Some ''.gz'') tar_registry"
    and "detect_language tar_registry ''Makefile'' = None"
    and "get_language_name tar_registry ''Makefile'' 64 = ''Unknown''"
    by simp_all
  moreover have "find_language (Some ''.gz'') tar_registry = Some (tar_registry ! 1)"
    by code_simp
  ultimately show ?thesis by simp
qed

text \<open>C6: a file whose language name equals \<^verbatim>\<open>Unknown\<close>, whatever the case of its
  letters, adds nothing to any aggregate: the output is the output for the other files
  alone. For the files \<^verbatim>\<open>("a.py", "Python")\<close> and \<^verbatim>\<open>("b.txt", "Unknown")\<close> the
  output is one entry, for \<^verbatim>\<open>Python\<close>, with files = 1 and the counts of the first
  file.\<close>

theorem C6_unknown_files_excluded:
  "aggregate_results lang_names file_results =
     aggregate_results (map fst (known_files lang_names file_results))
                       (map snd (known_files lang_names file_results))
   \<and> aggregate_results [''Python'', ''Unknown''] [r1, r2] =
       [(''Python'', \<lparr> files = 1, lines = r_lines r1, code = r_code r1,
                       comments = r_comments r1, size_bytes = r_size r1 \<rparr>)]
   \<and> aggregate_results [''Python'', ''uNKNOWN''] [r1, r2] =
       aggregate_results [''Python''] [r1]"
proof (intro conjI)
  show "aggregate_results lang_names file_results =
     aggregate_results (map fst (known_files lang_names file_results))
                       (map snd (known_files lang_names file_results))"
    unfolding aggregate_results_def
    by (subst aggregate_loop_known) (rule refl)
next
  show "aggregate_results [''Python'', ''Unknown''] [r1, r2] =
       [(''Python'', \<lparr> files = 1, lines = r_lines r1, code = r_code r1,
                       comments = r_comments r1, size_bytes = r_size r1 \<rparr>)]"
    by code_simp
next
  show "aggregate_results [''Python'', ''uNKNOWN''] [r1, r2] =
       aggregate_results [''Python''] [r1]"
    by code_simp
qed

text \<open>C7: a batch of one file gives, as its first result, the result of the single-file
  analysis of that file, and as its first language name the name that
  \<^verbatim>\<open>get_language_name\<close> writes into a 64-byte buffer (the size of a name slot of the
  batch).\<close>

theorem C7_single_element_batch:
  "analyze_batch g [p] [buf] = ([get_language_name g p 64], [analyze_file g p buf])"
  by (simp add: get_language_name_def analyze_file_def Let_def split: option.splits)

text \<open>C8: the claim is that an extension entry without a leading dot is stored with the
  dot put in front, so that \<^verbatim>\<open>py\<close> and \<^verbatim>\<open>.py\<close> register the same extension. The
  code stores an entry only when it reaches the comma after it: the loop
  \<^verbatim>\<open>while (ext_str[pos] && ...)\<close> ends at the terminator, so the test
  \<^verbatim>\<open>ext_str[pos] == '\0'\<close> in its body never holds and the last entry of the list is
  dropped. Registering \<^verbatim>\<open>"py"\<close> stores no extension and \<^verbatim>\<open>a.py\<close> is not detected;
  with a comma after it the entry is stored as \<^verbatim>\<open>.py\<close>.\<close>

theorem C8_last_entry_not_registered:
  "add_language (Some ''Python'') (Some ''py'') (Some ''#'') (Some []) (Some []) [] =
     [\<lparr> name = ''Python'', extensions = [], line_comment = ''#'', block_start = [],
        block_end = [] \<rparr>]
   \<and> detect_language
         (add_language (Some ''Python'') (Some ''py'') (Some ''#'') (Some []) (Some []) [])
         ''a.py'' = None
   \<and> add_language (Some ''Python'') (Some ''py,'') (Some ''#'') (Some []) (Some []) [] =
     [\<lparr> name = ''Python'', extensions = [''.py''], line_comment = ''#'', block_start = [],
        block_end = [] \<rparr>]"
  by code_simp

text \<open>C9: when no marker of the descriptor contains a newline byte (and when there is
  no descriptor), the number of lines reported is the number of newline bytes of the
  buffer plus one; so it is at least one, and a newline added at the end of a buffer adds
  a line, the empty segment after it.\<close>

theorem C9_lines_count_newlines:
  assumes "no_newline_markers lang"
  shows "r_lines (count_file_buffer B lang) = int (count_list B newline) + 1
       \<and> 1 \<le> r_lines (count_file_buffer B lang)
       \<and> r_lines (count_file_buffer (B @ [newline]) lang) = r_lines (count_file_buffer B lang) + 1"
  using assms by (simp add: count_file_buffer_lines)

theorem C9_witness:
  "no_newline_markers (Some slash_descriptor)
   \<and> count_list hello_buffer newline = 2
   \<and> r_lines (count_file_buffer hello_buffer (Some slash_descriptor)) = 3
   \<and> r_lines (count_file_buffer (hello_buffer @ [newline]) (Some slash_descriptor)) = 4"
proof -
  have ok: "no_newline_markers (Some slash_descriptor)"
    by (simp add: no_newline_markers_def slash_descriptor_def newline_def)
  have two: "count_list hello_buffer newline = 2"
    by (simp add: hello_buffer_def newline_def)
  from C9_lines_count_newlines [OF ok, of hello_buffer] two ok show ?thesis
    by simp
qed

text \<open>C10: a registration that is not dropped stores the first 63 bytes of the name and
  the first 7 bytes of each comment marker, and the classifier, which reads the markers
  from the stored descriptor, finds a marker at a position of the buffer exactly when
  these first 7 bytes stand there.\<close>

theorem C10_registration_truncates:
  assumes "length g < 300"
  shows "let l = last (add_language (Some nm) exts (Some lc) (Some bs) (Some be) g) in
           name l = take 63 nm
         \<and> line_comment l = take 7 lc
         \<and> block_start l = take 7 bs
         \<and> block_end l = take 7 be
         \<and> (bytes_match buf pos (marker (Some l) line_comment)
                (str_len (marker (Some l) line_comment)) (length buf) \<longleftrightarrow>
              take 7 lc \<noteq> [] \<and> pos + length (take 7 lc) \<le> length buf
              \<and> take (length (take 7 lc)) (drop pos buf) = take 7 lc)
         \<and> (bytes_match buf pos (marker (Some l) block_start)
                (str_len (marker (Some l) block_start)) (length buf) \<longleftrightarrow>
              take 7 bs \<noteq> [] \<and> pos + length (take 7 bs) \<le> length buf
              \<and> take (length (take 7 bs)) (drop pos buf) = take 7 bs)
         \<and> (bytes_match buf pos (marker (Some l) block_end)
                (str_len (marker (Some l) block_end)) (length buf) \<longleftrightarrow>
              take 7 be \<noteq> [] \<and> pos + length (take 7 be) \<le> length buf
              \<and> take (length (take 7 be)) (drop pos buf) = take 7 be)"
proof -
  define l where "l = last (add_language (Some nm) exts (Some lc) (Some bs) (Some be) g)"
  have fields: "name l = take 63 nm" "line_comment l = take 7 lc" "block_start l = take 7 bs"
    "block_end l = take 7 be"
    using assms by (simp_all add: l_def add_language_def str_copy_take)
  have match: "bytes_match buf pos (marker (Some l) field) (str_len (marker (Some l) field))
                 (length buf) \<longleftrightarrow>
               field l \<noteq> [] \<and> pos + length (field l) \<le> length buf
               \<and> take (length (field l)) (drop pos buf) = field l" for field
  proof (cases "field l = []")
    case True
    then show ?thesis by (simp add: marker_def bytes_match_def)
  next
    case False
    then have "marker (Some l) field = Some (field l)" by (simp add: marker_def)
    then show ?thesis by (simp only: str_len_def option.case bytes_match_iff)
  qed
  show ?thesis
    unfolding Let_def l_def [symmetric]
    using fields match [of line_comment] match [of block_start] match [of block_end]
    by simp
qed

theorem C10_witness:
  "line_comment (last (add_language (Some ''Python'') (Some ''py,'') (Some ''#########'')
       (Some []) (Some []) [])) = ''#######''
   \<and> bytes_match ''#######x'' 0 (Some ''#######'') (length ''#######'') (length ''#######x'')
   \<and> r_comments (count_file_buffer ''#######x''
        (Some (last (add_language (Some ''Python'') (Some ''py,'') (Some ''#########'')
           (Some []) (Some []) [])))) = 1"
proof -
  have cap: "length ([] :: registry) < 300"
    by simp
  define l where "l = last (add_language (Some ''Python'') (Some ''py,'') (Some ''#########'')
       (Some []) (Some []) [])"
  from C10_registration_truncates [OF cap, of "''Python''" "Some ''py,''" "''#########''" "[]" "[]"
         "''#######x''" 0]
  have lc: "line_comment l = ''#######''"
    and m: "bytes_match ''#######x'' 0 (marker (Some l) line_comment)
              (str_len (marker (Some l) line_comment)) (length ''#######x'')"
    by (simp_all add: Let_def l_def [symmetric])
  from lc have "marker (Some l) line_comment = Some ''#######''"
    by (simp add: marker_def)
  with m have "bytes_match ''#######x'' 0 (Some ''#######'') (length ''#######'')
                 (length ''#######x'')"
    by (simp add: str_len_def)
  moreover have "r_comments (count_file_buffer ''#######x'' (Some l)) = 1"
    unfolding l_def by code_simp
  ultimately show ?thesis using lc unfolding l_def by simp
qed

end
